theory Spec2Isabelle
  imports Main "HOL-Library.Word" "HOL-Library.Monad_Syntax" "HOL-Library.Multiset"
begin

section \<open>Product catalog\<close>

text \<open>
  \<^verbatim>\<open>enum class Product { Invalid = -1, Dresses, ..., Accessories, Count }\<close> has the
  underlying type \<^verbatim>\<open>int\<close>, and \<^verbatim>\<open>scanf("%d", &item.id)\<close> can store any \<^verbatim>\<open>int\<close> in
  it. A category identifier is therefore a 32-bit word, read as two's complement by
  \<open>sint\<close>, and the enumerators are the constants \<open>-1, 0, ..., 10\<close>.
\<close>

type_synonym Product = "32 word"

definition MAX_ITEMS :: nat where "MAX_ITEMS = 30"

definition Invalid :: Product where "Invalid = - 1"
definition Dresses :: Product where "Dresses = 0"
definition CropTops :: Product where "CropTops = 1"
definition SweatshirtsHoodies :: Product where "SweatshirtsHoodies = 2"
definition Blouses :: Product where "Blouses = 3"
definition Skirts :: Product where "Skirts = 4"
definition Shorts :: Product where "Shorts = 5"
definition Jeans :: Product where "Jeans = 6"
definition MatchingSets :: Product where "MatchingSets = 7"
definition Swimwear :: Product where "Swimwear = 8"
definition Accessories :: Product where "Accessories = 9"
definition Count :: Product where "Count = 10"

lemmas Product_defs =
  Invalid_def Dresses_def CropTops_def SweatshirtsHoodies_def Blouses_def Skirts_def
  Shorts_def Jeans_def MatchingSets_def Swimwear_def Accessories_def Count_def

text \<open>The table \<^verbatim>\<open>PRODUCT_NAMES\<close>, indexed by the integer value of the category.\<close>

definition PRODUCT_NAMES :: "string list" where
  "PRODUCT_NAMES =
    [''Dresses'', ''Crop Tops'', ''Sweatshirts & Hoodies'', ''Blouses'', ''Skirts'',
     ''Shorts'', ''Jeans'', ''MatchingSets'', ''Swimwear'', ''Accessories'']"

text \<open>\<^verbatim>\<open>prod > Product::Invalid && prod < Product::Count\<close>, a signed comparison.\<close>

definition is_valid_product :: "Product \<Rightarrow> bool" where
  "is_valid_product p \<longleftrightarrow> sint Invalid < sint p \<and> sint p < sint Count"

definition get_product_name :: "Product \<Rightarrow> string" where
  "get_product_name p =
     (if \<not> is_valid_product p then '''' else PRODUCT_NAMES ! nat (sint p))"

section \<open>Inventory store\<close>

text \<open>
  \<^verbatim>\<open>struct Item\<close>. The price is a \<^verbatim>\<open>float\<close> that the program only stores and prints:
  it is kept as its 32-bit pattern. The field \<^verbatim>\<open>id\<close> is called \<open>item_id\<close> here.
\<close>

record Item =
  item_id :: Product
  name :: string
  price :: "32 word"
  nstock :: "32 word"

text \<open>
  \<^verbatim>\<open>struct Inventory { Items items; }\<close>. The constructor only reserves room for
  \<^verbatim>\<open>MAX_ITEMS\<close> elements; the vector it leaves is empty.
\<close>

record Inventory =
  items :: "Item list"

definition Inventory_new :: Inventory where
  "Inventory_new = \<lparr>items = []\<rparr>"

text \<open>\<^verbatim>\<open>items.emplace_back(item)\<close>\<close>

definition add :: "Item \<Rightarrow> Inventory \<Rightarrow> Inventory" where
  "add item self = self\<lparr>items := items self @ [item]\<rparr>"

text \<open>
  \<^verbatim>\<open>items.erase(pitem)\<close>. An iterator into the vector is the index of its element.
  Erasing at a position that holds no element is undefined in the source: the model
  gives no result (\<open>None\<close>) there.
\<close>

definition erase :: "nat \<Rightarrow> 'a list \<Rightarrow> 'a list" where
  "erase pos xs = take pos xs @ drop (Suc pos) xs"

definition remove :: "nat \<Rightarrow> Inventory \<Rightarrow> Inventory option" where
  "remove pitem self =
     (if pitem < length (items self) then Some (self\<lparr>items := erase pitem (items self)\<rparr>)
      else None)"

text \<open>
  \<^verbatim>\<open>std::find_if(first, last, pred)\<close>: the position of the first element satisfying
  the predicate, counted from \<open>first\<close>, or \<open>last\<close> (the length) when there is none.
\<close>

fun find_if :: "('a \<Rightarrow> bool) \<Rightarrow> 'a list \<Rightarrow> nat" where
  "find_if pred [] = 0"
| "find_if pred (x # xs) = (if pred x then 0 else Suc (find_if pred xs))"

text \<open>
  \<^verbatim>\<open>search\<close> returns the iterator found, or a value-initialised (null) iterator when
  \<^verbatim>\<open>find_if\<close> reached \<^verbatim>\<open>items.end()\<close>; the caller tests \<^verbatim>\<open>pitem != ItemPtr {}\<close>.
\<close>

definition search :: "(Item \<Rightarrow> bool) \<Rightarrow> Inventory \<Rightarrow> nat option" where
  "search pred self =
     (let pitem = find_if pred (items self)
      in if pitem \<noteq> length (items self) then Some pitem else None)"

text \<open>
  Console output is a sequence of events: a text printed as it is, one line of the
  category list, kept as the two arguments of its \<^verbatim>\<open>printf\<close> (\<^verbatim>\<open>"(%d) %s\n"\<close>), or
  one table row of \<^verbatim>\<open>Inventory::list\<close>, kept as the four arguments of its
  \<^verbatim>\<open>printf\<close> (\<^verbatim>\<open>"%32s%64s%16.2f%8d\n"\<close>).
\<close>

datatype out = Text string | Entry nat string | Row string string "32 word" "32 word"

definition nl :: char where "nl = CHR 0x0A"

definition row_of :: "Item \<Rightarrow> out" where
  "row_of item = Row (get_product_name (item_id item)) (name item) (price item) (nstock item)"

definition separator :: out where
  "separator = Text (''---------------'' @ [nl])"

definition list_header :: out where
  "list_header = Text (
     replicate 25 CHR '' '' @ ''Product'' @ replicate 54 CHR '' '' @ ''Model Code''
     @ replicate 5 CHR '' '' @ ''Price (GBP)'' @ replicate 4 CHR '' '' @ ''Qty.'' @ [nl])"

text \<open>\<^verbatim>\<open>Inventory::list\<close>: the header, one row per item in sequence order, the separator.\<close>

definition list_items :: "Inventory \<Rightarrow> out list" where
  "list_items self = [list_header] @ map row_of (items self) @ [separator]"

section \<open>Interactive shell\<close>

text \<open>
  Standard input is the sequence of outcomes of the successive read attempts
  (\<^verbatim>\<open>scanf\<close>, \<^verbatim>\<open>std::cin >>\<close>, \<^verbatim>\<open>std::getline\<close>). A read attempt takes the next
  outcome; when it is of the kind the read asks for, the variable receives its value.
  Otherwise the read fails: at \<open>Failed\<close> and at the end of the input, where every read
  fails, the variable keeps the value it had; what a read does with an outcome of
  another kind is said at each read below.
\<close>

datatype reading =
  GotChar char | GotInt "32 word" | GotLine string | GotFloat "32 word" | Failed

text \<open>
  \<^verbatim>\<open>struct InventoryUI { Inventory inventory; }\<close> together with the console it talks
  to. \<open>uninit\<close> is what the scalar fields of a default-initialised \<^verbatim>\<open>Item\<close> local
  hold before anything is stored in them (\<^verbatim>\<open>Item() = default\<close> leaves them
  indeterminate).
\<close>

record InventoryUI =
  inventory :: Inventory
  cin :: "reading list"
  cout :: "out list"
  uninit :: Item

definition printf :: "string \<Rightarrow> InventoryUI \<Rightarrow> InventoryUI" where
  "printf txt ui = ui\<lparr>cout := cout ui @ [Text txt]\<rparr>"

definition next_reading :: "InventoryUI \<Rightarrow> reading \<times> InventoryUI" where
  "next_reading ui =
     (case cin ui of [] \<Rightarrow> (Failed, ui) | r # rs \<Rightarrow> (r, ui\<lparr>cin := rs\<rparr>))"

text \<open>
  Each read takes the current value of its variable and returns the new one.
  \<open>read_char\<close> is \<^verbatim>\<open>scanf(" %c", &opt)\<close> and \<^verbatim>\<open>std::cin >> opt\<close>, \<open>read_int\<close> is
  \<^verbatim>\<open>scanf("%d", &x)\<close> and \<open>read_line\<close> is \<^verbatim>\<open>std::getline(std::cin >> std::ws, s)\<close>:
  all three leave the variable alone when nothing is converted.
\<close>

definition read_char :: "char \<Rightarrow> InventoryUI \<Rightarrow> char \<times> InventoryUI" where
  "read_char cur ui =
     (case next_reading ui of (GotChar c, ui') \<Rightarrow> (c, ui') | (_, ui') \<Rightarrow> (cur, ui'))"

definition read_int :: "32 word \<Rightarrow> InventoryUI \<Rightarrow> 32 word \<times> InventoryUI" where
  "read_int cur ui =
     (case next_reading ui of (GotInt n, ui') \<Rightarrow> (n, ui') | (_, ui') \<Rightarrow> (cur, ui'))"

definition read_line :: "string \<Rightarrow> InventoryUI \<Rightarrow> string \<times> InventoryUI" where
  "read_line cur ui =
     (case next_reading ui of (GotLine l, ui') \<Rightarrow> (l, ui') | (_, ui') \<Rightarrow> (cur, ui'))"

text \<open>
  \<^verbatim>\<open>std::cin >> item.price\<close> and \<^verbatim>\<open>std::cin >> item.nstock\<close>: the numeric extraction
  of the stream. When the text read is not a number the extraction stores zero; when
  the stream delivers nothing at all (\<open>Failed\<close>, or the end of the input) the variable
  keeps its value. A number out of range is stored as the limit of the type: that is
  the reading of that limit.
\<close>

definition read_float :: "32 word \<Rightarrow> InventoryUI \<Rightarrow> 32 word \<times> InventoryUI" where
  "read_float cur ui =
     (case next_reading ui of
        (GotFloat x, ui') \<Rightarrow> (x, ui')
      | (Failed, ui') \<Rightarrow> (cur, ui')
      | (_, ui') \<Rightarrow> (0, ui'))"

definition extract_int :: "32 word \<Rightarrow> InventoryUI \<Rightarrow> 32 word \<times> InventoryUI" where
  "extract_int cur ui =
     (case next_reading ui of
        (GotInt n, ui') \<Rightarrow> (n, ui')
      | (Failed, ui') \<Rightarrow> (cur, ui')
      | (_, ui') \<Rightarrow> (0, ui'))"

definition invalid_option :: string where
  "invalid_option = ''Invalid option selected. Please try again.'' @ [nl]"

definition list_products :: "InventoryUI \<Rightarrow> InventoryUI" where
  "list_products ui =
     ui\<lparr>cout := cout ui @ [Text (''Product list: '' @ [nl])]
          @ map (\<lambda>(i, nm). Entry i nm) (enumerate 0 PRODUCT_NAMES) @ [separator]\<rparr>"

definition list_options :: "InventoryUI \<Rightarrow> InventoryUI" where
  "list_options ui =
     printf (''(q) Quit'' @ [nl])
       (printf (''(l) List Items in Stock'' @ [nl])
         (printf (''(p) List Product Categories'' @ [nl])
           (printf (''(s) Search Item'' @ [nl])
             (printf (''(a) Add Item'' @ [nl]) ui))))"

text \<open>\<^verbatim>\<open>char opt {}; scanf(" %c", &opt); return opt;\<close>\<close>

definition get_user_action :: "InventoryUI \<Rightarrow> char \<times> InventoryUI" where
  "get_user_action ui = read_char (CHR 0x00) (printf ''Select operation: '' ui)"

text \<open>
  The \<^verbatim>\<open>do { ... } while (true)\<close> of \<^verbatim>\<open>handle_add_option\<close>, with the local \<^verbatim>\<open>item\<close>
  carried from one round to the next. A loop that never returns has the value \<open>None\<close>.
\<close>

partial_function (option) add_loop :: "Item \<Rightarrow> InventoryUI \<Rightarrow> (Item \<times> InventoryUI) option" where
  "add_loop item ui =
     (let ui1 = printf ''Select product category to add: '' (list_products ui);
          (pid, ui2) = read_int (item_id item) ui1;
          item1 = item\<lparr>item_id := pid\<rparr>
      in if \<not> is_valid_product (item_id item1)
         then add_loop item1 (printf invalid_option ui2)
         else
           let (nm, ui3) = read_line (name item1) (printf ''Enter model code: '' ui2);
               (pr, ui4) = read_float (price item1) (printf ''Enter price: '' ui3);
               (ns, ui5) = extract_int (nstock item1) (printf ''Enter quantity: '' ui4)
           in Some (item1\<lparr>name := nm, price := pr, nstock := ns\<rparr>, ui5))"

declare add_loop.simps [code]

text \<open>\<^verbatim>\<open>Item item;\<close> starts with an empty name and indeterminate scalars.\<close>

definition handle_add_option :: "InventoryUI \<Rightarrow> (Item \<times> InventoryUI) option" where
  "handle_add_option ui = add_loop ((uninit ui)\<lparr>name := ''''\<rparr>) ui"

text \<open>
  The edit branch of \<^verbatim>\<open>handle_search_option\<close>:
  \<^verbatim>\<open>new_item = handle_add_option(); inventory.remove(pitem); inventory.add(new_item);\<close>
  Undefined behaviour of \<^verbatim>\<open>remove\<close> leaves the shell without a result, too.
\<close>

definition edit_item :: "nat \<Rightarrow> InventoryUI \<Rightarrow> InventoryUI option" where
  "edit_item pitem ui =
     do { (new_item, ui') \<leftarrow> handle_add_option ui;
          self \<leftarrow> remove pitem (inventory ui');
          Some (ui'\<lparr>inventory := add new_item self\<rparr>) }"

text \<open>The menu loop of \<^verbatim>\<open>handle_search_option\<close> on a found item.\<close>

partial_function (option) found_loop :: "nat \<Rightarrow> InventoryUI \<Rightarrow> InventoryUI option" where
  "found_loop pitem ui =
     (let ui1 = printf (''(q) Quit'' @ [nl])
                  (printf (''(e) Edit Item'' @ [nl])
                    (printf (''(r) Remove Item'' @ [nl]) ui));
          (opt, ui2) = get_user_action ui1
      in if opt = CHR ''r'' then
           do { self \<leftarrow> remove pitem (inventory ui2);
                Some (ui2\<lparr>inventory := self\<rparr>) }
         else if opt = CHR ''e'' then edit_item pitem ui2
         else if opt = CHR ''q'' then Some ui2
         else found_loop pitem (printf invalid_option ui2))"

declare found_loop.simps [code]

text \<open>The part of \<^verbatim>\<open>handle_search_option\<close> after the search: \<^verbatim>\<open>if (pitem != ItemPtr {})\<close>.\<close>

definition found_item_menu :: "nat option \<Rightarrow> InventoryUI \<Rightarrow> InventoryUI option" where
  "found_item_menu pitem ui =
     (case pitem of
        Some p \<Rightarrow> found_loop p ui
      | None \<Rightarrow> Some (printf (''Item not found. Try adding an item.'' @ [nl]) ui))"

definition handle_search_option :: "InventoryUI \<Rightarrow> InventoryUI option" where
  "handle_search_option ui =
     (let (opt, ui1) =
            read_char (CHR 0x00) (printf ''Search by (n) Name, (p) Product Category: '' ui)
      in if opt = CHR ''n'' then
           let (nm, ui2) = read_line '''' (printf ''Enter model name: '' ui1)
           in found_item_menu (search (\<lambda>item. name item = nm) (inventory ui2)) ui2
         else if opt = CHR ''p'' then
           let (p, ui2) = read_int Invalid (printf ''Select product id: '' (list_products ui1))
           in found_item_menu (search (\<lambda>item. item_id item = p) (inventory ui2)) ui2
         else Some (printf invalid_option ui1))"

text \<open>
  One round of the main loop of \<^verbatim>\<open>run\<close>. The flag says whether the round left the
  loop by \<^verbatim>\<open>break\<close>.
\<close>

definition run_body :: "InventoryUI \<Rightarrow> (bool \<times> InventoryUI) option" where
  "run_body ui =
     (let (opt, ui1) = get_user_action (list_options ui)
      in if opt = CHR ''a'' then
           do { (item, ui2) \<leftarrow> handle_add_option ui1;
                Some (False, printf (''Added item'' @ [nl, nl])
                               (ui2\<lparr>inventory := add item (inventory ui2)\<rparr>)) }
         else if opt = CHR ''s'' then
           do { ui2 \<leftarrow> handle_search_option ui1; Some (False, ui2) }
         else if opt = CHR ''p'' then Some (False, list_products ui1)
         else if opt = CHR ''l'' then
           Some (False, ui1\<lparr>cout := cout ui1 @ list_items (inventory ui1)\<rparr>)
         else if opt = CHR ''q'' then Some (True, ui1)
         else Some (False, printf invalid_option ui1))"

partial_function (option) run_loop :: "InventoryUI \<Rightarrow> InventoryUI option" where
  "run_loop ui =
     do { (brk, ui') \<leftarrow> run_body ui;
          if brk then Some ui' else run_loop ui' }"

declare run_loop.simps [code]

definition run :: "InventoryUI \<Rightarrow> InventoryUI option" where
  "run ui = run_loop (printf (''Shop Inventory v0.1'' @ [nl]) ui)"

text \<open>\<^verbatim>\<open>main\<close>: a fresh \<^verbatim>\<open>InventoryUI\<close> on a given console, then \<^verbatim>\<open>run\<close>.\<close>

definition InventoryUI_new :: "reading list \<Rightarrow> Item \<Rightarrow> InventoryUI" where
  "InventoryUI_new inp garbage =
     \<lparr>inventory = Inventory_new, cin = inp, cout = [], uninit = garbage\<rparr>"

definition main :: "reading list \<Rightarrow> Item \<Rightarrow> InventoryUI option" where
  "main inp garbage = run (InventoryUI_new inp garbage)"

text \<open>
  The shell after \<open>n\<close> completed rounds of the main loop, none of which left it:
  the states in which the shell shows its main menu.
\<close>

fun rounds :: "nat \<Rightarrow> InventoryUI \<Rightarrow> InventoryUI option" where
  "rounds 0 ui = Some ui"
| "rounds (Suc n) ui =
     do { (brk, ui') \<leftarrow> run_body ui;
          if brk then None else rounds n ui' }"

text \<open>The inventory invariant: every stored item has a valid category.\<close>

definition stock_valid :: "Inventory \<Rightarrow> bool" where
  "stock_valid self \<longleftrightarrow> (\<forall>item \<in> set (items self). is_valid_product (item_id item))"

section \<open>Sample data\<close>

text \<open>
  Items and inventories on which the theorems below are exercised. The prices are the
  bit patterns of \<open>24.99\<close>, \<open>5.0\<close> and \<open>7.5\<close>.
\<close>

definition sk100 :: Item where
  "sk100 = \<lparr>item_id = Skirts, name = ''SK-100'', price = 0x41C7EB85, nstock = 12\<rparr>"

definition dup_first :: Item where
  "dup_first = \<lparr>item_id = Jeans, name = ''DUP'', price = 0x40A00000, nstock = 1\<rparr>"

definition dup_second :: Item where
  "dup_second = \<lparr>item_id = Shorts, name = ''DUP'', price = 0x40F00000, nstock = 2\<rparr>"

definition stock3 :: Inventory where
  "stock3 = \<lparr>items = [sk100, dup_first, dup_second]\<rparr>"

definition sk200 :: Item where
  "sk200 = \<lparr>item_id = Skirts, name = ''SK-200'', price = 0x41C7EB85, nstock = 3\<rparr>"

definition is_sk100 :: "Item \<Rightarrow> bool" where
  "is_sk100 item \<longleftrightarrow> name item = ''SK-100''"

definition is_dup :: "Item \<Rightarrow> bool" where
  "is_dup item \<longleftrightarrow> name item = ''DUP''"

text \<open>
  Consoles: what an uninitialised \<^verbatim>\<open>Item\<close> holds, the readings of whole sessions, the
  readings that answer the add flow, and a shell on a given inventory and input.
\<close>

definition junk :: Item where
  "junk = \<lparr>item_id = 77, name = ''?'', price = 0, nstock = 0\<rparr>"

definition session_add :: "reading list" where
  "session_add =
     [GotChar CHR ''a'', GotInt 12, GotInt 4, GotLine ''SK-100'', GotFloat 0x41C7EB85,
      GotInt 12, GotChar CHR ''l'', GotChar CHR ''q'']"


definition enter_sk200 :: "reading list" where
  "enter_sk200 = [GotInt 4, GotLine ''SK-200'', GotFloat 0x41C7EB85, GotInt 3]"

definition enter_dup :: "reading list" where
  "enter_dup = [GotInt 6, GotLine ''DUP'', GotFloat 0x40A00000, GotInt 1]"

definition shell_on :: "Item list \<Rightarrow> reading list \<Rightarrow> InventoryUI" where
  "shell_on xs inp = \<lparr>inventory = \<lparr>items = xs\<rparr>, cin = inp, cout = [], uninit = junk\<rparr>"

section \<open>Properties of the product catalog\<close>

lemma valid_product_cases: "is_valid_product p \<longleftrightarrow> p \<in> {0, 1, 2, 3, 4, 5, 6, 7, 8, 9}"
proof
  assume "is_valid_product p"
  then have "0 \<le> sint p" "sint p < 10"
    by (simp_all add: is_valid_product_def Product_defs)
  then have "sint p = 0 \<or> sint p = 1 \<or> sint p = 2 \<or> sint p = 3 \<or> sint p = 4
      \<or> sint p = 5 \<or> sint p = 6 \<or> sint p = 7 \<or> sint p = 8 \<or> sint p = 9"
    by arith
  moreover have "p = word_of_int (sint p)" by simp
  ultimately have "p = word_of_int 0 \<or> p = word_of_int 1 \<or> p = word_of_int 2
      \<or> p = word_of_int 3 \<or> p = word_of_int 4 \<or> p = word_of_int 5 \<or> p = word_of_int 6
      \<or> p = word_of_int 7 \<or> p = word_of_int 8 \<or> p = word_of_int 9"
    by metis
  then show "p \<in> {0, 1, 2, 3, 4, 5, 6, 7, 8, 9}" by simp
next
  assume "p \<in> {0, 1, 2, 3, 4, 5, 6, 7, 8, 9}"
  then show "is_valid_product p" by (auto simp: is_valid_product_def Product_defs)
qed

lemma name_of_valid:
  "get_product_name 0 = ''Dresses''" "get_product_name 1 = ''Crop Tops''"
  "get_product_name 2 = ''Sweatshirts & Hoodies''" "get_product_name 3 = ''Blouses''"
  "get_product_name 4 = ''Skirts''" "get_product_name 5 = ''Shorts''"
  "get_product_name 6 = ''Jeans''" "get_product_name 7 = ''MatchingSets''"
  "get_product_name 8 = ''Swimwear''" "get_product_name 9 = ''Accessories''"
  by (simp_all add: get_product_name_def is_valid_product_def Product_defs PRODUCT_NAMES_def)

lemma name_of_invalid: "\<not> is_valid_product p \<Longrightarrow> get_product_name p = ''''"
  by (simp add: get_product_name_def)

text \<open>
  C6: \<open>is_valid_product\<close> holds exactly for the identifiers strictly between
  \<open>Invalid\<close> and \<open>Count\<close>, which are exactly the ten declared categories; it rejects
  \<open>Invalid\<close>, \<open>Count\<close> and every other value, and the twelve enumerators are
  pairwise different.
\<close>

theorem is_valid_product_range:
  "(is_valid_product p \<longleftrightarrow> sint Invalid < sint p \<and> sint p < sint Count)
   \<and> (is_valid_product p \<longleftrightarrow>
        p \<in> {Dresses, CropTops, SweatshirtsHoodies, Blouses, Skirts, Shorts, Jeans,
              MatchingSets, Swimwear, Accessories})
   \<and> \<not> is_valid_product Invalid \<and> \<not> is_valid_product Count
   \<and> distinct [Invalid, Dresses, CropTops, SweatshirtsHoodies, Blouses, Skirts, Shorts,
                Jeans, MatchingSets, Swimwear, Accessories, Count]"
proof -
  have a: "is_valid_product p \<longleftrightarrow> sint Invalid < sint p \<and> sint p < sint Count"
    by (rule is_valid_product_def)
  have b: "is_valid_product p \<longleftrightarrow>
      p \<in> {Dresses, CropTops, SweatshirtsHoodies, Blouses, Skirts, Shorts, Jeans,
            MatchingSets, Swimwear, Accessories}"
    unfolding Product_defs by (rule valid_product_cases)
  have c: "\<not> is_valid_product Invalid" by (simp add: is_valid_product_def Product_defs)
  have d: "\<not> is_valid_product Count" by (simp add: is_valid_product_def Product_defs)
  have e: "distinct [Invalid, Dresses, CropTops, SweatshirtsHoodies, Blouses, Skirts, Shorts,
                Jeans, MatchingSets, Swimwear, Accessories, Count]"
    by (simp add: Product_defs)
  from a b c d e show ?thesis by (intro conjI)
qed

text \<open>
  C7: \<open>get_product_name\<close> gives each declared category its display string and every
  other identifier, the sentinels \<open>Invalid\<close> and \<open>Count\<close> among them, the empty string.
\<close>

theorem get_product_name_table:
  "get_product_name p =
     (if p = Dresses then ''Dresses''
      else if p = CropTops then ''Crop Tops''
      else if p = SweatshirtsHoodies then ''Sweatshirts & Hoodies''
      else if p = Blouses then ''Blouses''
      else if p = Skirts then ''Skirts''
      else if p = Shorts then ''Shorts''
      else if p = Jeans then ''Jeans''
      else if p = MatchingSets then ''MatchingSets''
      else if p = Swimwear then ''Swimwear''
      else if p = Accessories then ''Accessories''
      else '''')
   \<and> get_product_name p = (if is_valid_product p then PRODUCT_NAMES ! nat (sint p) else '''')
   \<and> get_product_name Dresses = ''Dresses''
   \<and> get_product_name Count = ''''
   \<and> get_product_name Invalid = ''''"
proof -
  have a: "get_product_name p =
     (if p = Dresses then ''Dresses''
      else if p = CropTops then ''Crop Tops''
      else if p = SweatshirtsHoodies then ''Sweatshirts & Hoodies''
      else if p = Blouses then ''Blouses''
      else if p = Skirts then ''Skirts''
      else if p = Shorts then ''Shorts''
      else if p = Jeans then ''Jeans''
      else if p = MatchingSets then ''MatchingSets''
      else if p = Swimwear then ''Swimwear''
      else if p = Accessories then ''Accessories''
      else '''')"
  proof (cases "is_valid_product p")
    case True
    then have "p \<in> {0, 1, 2, 3, 4, 5, 6, 7, 8, 9}" by (rule valid_product_cases [THEN iffD1])
    then show ?thesis unfolding Product_defs by (auto simp: name_of_valid)
  next
    case False
    have "p \<notin> {0, 1, 2, 3, 4, 5, 6, 7, 8, 9}"
    proof
      assume "p \<in> {0, 1, 2, 3, 4, 5, 6, 7, 8, 9}"
      then have "is_valid_product p" by (rule valid_product_cases [THEN iffD2])
      with False show False by contradiction
    qed
    with False show ?thesis unfolding Product_defs by (simp add: name_of_invalid)
  qed
  have b: "get_product_name p = (if is_valid_product p then PRODUCT_NAMES ! nat (sint p) else '''')"
    by (simp add: get_product_name_def)
  have c: "get_product_name Dresses = ''Dresses''" by (simp add: Dresses_def name_of_valid)
  have d: "get_product_name Count = ''''"
    by (simp add: get_product_name_def is_valid_product_def Product_defs)
  have e: "get_product_name Invalid = ''''"
    by (simp add: get_product_name_def is_valid_product_def Product_defs)
  from a b c d e show ?thesis by (intro conjI)
qed

section \<open>Properties of the inventory store\<close>

lemma find_if_le: "find_if pred xs \<le> length xs"
  by (induction xs) auto

lemma find_if_pred: "find_if pred xs < length xs \<Longrightarrow> pred (xs ! find_if pred xs)"
  by (induction xs) (auto split: if_splits)

lemma find_if_before: "j < find_if pred xs \<Longrightarrow> \<not> pred (xs ! j)"
proof (induction xs arbitrary: j)
  case Nil
  then show ?case by simp
next
  case (Cons x xs)
  then show ?case by (cases j) (auto split: if_splits)
qed

lemma find_if_end: "find_if pred xs = length xs \<longleftrightarrow> (\<forall>x \<in> set xs. \<not> pred x)"
  by (induction xs) auto

lemma find_if_first:
  "i < length xs \<Longrightarrow> pred (xs ! i) \<Longrightarrow> \<forall>j<i. \<not> pred (xs ! j) \<Longrightarrow> find_if pred xs = i"
proof (induction xs arbitrary: i)
  case Nil
  then show ?case by simp
next
  case (Cons x xs)
  show ?case
  proof (cases i)
    case 0
    with Cons.prems show ?thesis by simp
  next
    case (Suc k)
    from Cons.prems Suc have "\<not> pred x" by auto
    moreover have "find_if pred xs = k"
    proof (rule Cons.IH)
      show "k < length xs" using Cons.prems Suc by simp
      show "pred (xs ! k)" using Cons.prems Suc by simp
      show "\<forall>j<k. \<not> pred (xs ! j)"
        using Cons.prems(3) Suc by (metis Suc_less_eq nth_Cons_Suc)
    qed
    ultimately show ?thesis using Suc by simp
  qed
qed

lemma search_None_iff: "search pred self = None \<longleftrightarrow> (\<forall>x \<in> set (items self). \<not> pred x)"
  by (simp add: search_def Let_def find_if_end)

lemma search_Some_iff:
  "search pred self = Some i \<longleftrightarrow>
     i < length (items self) \<and> pred (items self ! i) \<and> (\<forall>j<i. \<not> pred (items self ! j))"
proof
  assume "search pred self = Some i"
  then have i: "i = find_if pred (items self)" and ne: "i \<noteq> length (items self)"
    by (auto simp: search_def Let_def split: if_splits)
  from i ne find_if_le [of pred "items self"] have lt: "i < length (items self)" by simp
  with i show "i < length (items self) \<and> pred (items self ! i)
      \<and> (\<forall>j<i. \<not> pred (items self ! j))"
    using find_if_pred [of pred "items self"] find_if_before [of _ pred "items self"] by simp
next
  assume "i < length (items self) \<and> pred (items self ! i) \<and> (\<forall>j<i. \<not> pred (items self ! j))"
  then have "find_if pred (items self) = i" and "i < length (items self)"
    using find_if_first by blast+
  then show "search pred self = Some i" by (simp add: search_def)
qed

text \<open>
  C1: for every inventory and predicate, \<open>search\<close> returns the position of the first
  element, in sequence order, that satisfies the predicate, and it returns the empty
  result exactly when no element satisfies it.
\<close>

theorem search_first_match:
  "(search pred self = None \<longleftrightarrow> (\<forall>x \<in> set (items self). \<not> pred x))
   \<and> (\<forall>i. search pred self = Some i \<longleftrightarrow>
          i < length (items self) \<and> pred (items self ! i)
          \<and> (\<forall>j<i. \<not> pred (items self ! j)))"
  by (intro conjI allI search_None_iff search_Some_iff)

theorem search_first_match_witness:
  "search (\<lambda>item. name item = ''DUP'') stock3 = Some 1
   \<and> search (\<lambda>item. name item = ''none'') stock3 = None"
proof -
  have "(1::nat) < length (items stock3) \<and> name (items stock3 ! 1) = ''DUP''
      \<and> (\<forall>j<1::nat. name (items stock3 ! j) \<noteq> ''DUP'')"
    by (simp add: stock3_def sk100_def dup_first_def dup_second_def)
  moreover have "\<forall>x \<in> set (items stock3). name x \<noteq> ''none''"
    by (simp add: stock3_def sk100_def dup_first_def dup_second_def)
  ultimately show ?thesis
    using search_first_match [of "\<lambda>item. name item = ''DUP''" stock3]
      search_first_match [of "\<lambda>item. name item = ''none''" stock3]
    by blast
qed

lemma length_erase: "pos < length xs \<Longrightarrow> Suc (length (erase pos xs)) = length xs"
  by (simp add: erase_def min_def)

lemma nth_erase:
  "pos < length xs \<Longrightarrow> k < length xs - 1 \<Longrightarrow>
     erase pos xs ! k = (if k < pos then xs ! k else xs ! Suc k)"
  by (auto simp: erase_def nth_append min_def)

lemma mset_erase: "pos < length xs \<Longrightarrow> add_mset (xs ! pos) (mset (erase pos xs)) = mset xs"
proof -
  assume lt: "pos < length xs"
  then have "xs = take pos xs @ xs ! pos # drop (Suc pos) xs"
    by (rule id_take_nth_drop)
  then have "mset xs = mset (take pos xs @ xs ! pos # drop (Suc pos) xs)" by simp
  then show ?thesis by (simp add: erase_def)
qed

lemma items_foldl_add: "items (foldl (\<lambda>s item. add item s) self xs) = items self @ xs"
  by (induction xs arbitrary: self) (simp_all add: add_def)

text \<open>
  C2: \<open>add\<close> is total and appends its item at the end, whatever the size of the
  inventory; a run of \<open>add\<close>s therefore leaves exactly the added items in insertion
  order, and \<open>list_items\<close> prints the header, then for each added item, in that
  order, the row of its category name, model code, price and quantity, then the
  separator. One more than \<open>MAX_ITEMS\<close> additions all go through. The listing after
  adding \<open>sk100\<close> and then \<open>dup_first\<close> is spelled out.
\<close>

theorem add_appends_in_order:
  "items (add item self) = items self @ [item]
   \<and> length (items (add item self)) = Suc (length (items self))
   \<and> items (foldl (\<lambda>s x. add x s) self xs) = items self @ xs
   \<and> list_items (foldl (\<lambda>s x. add x s) Inventory_new xs)
       = [Text (replicate 25 CHR '' '' @ ''Product'' @ replicate 54 CHR '' ''
                @ ''Model Code'' @ replicate 5 CHR '' '' @ ''Price (GBP)''
                @ replicate 4 CHR '' '' @ ''Qty.'' @ [CHR 0x0A])]
         @ map (\<lambda>x. Row (get_product_name (item_id x)) (name x) (price x) (nstock x)) xs
         @ [Text (''---------------'' @ [CHR 0x0A])]
   \<and> list_items (foldl (\<lambda>s x. add x s) Inventory_new [sk100, dup_first])
       = [Text (replicate 25 CHR '' '' @ ''Product'' @ replicate 54 CHR '' ''
                @ ''Model Code'' @ replicate 5 CHR '' '' @ ''Price (GBP)''
                @ replicate 4 CHR '' '' @ ''Qty.'' @ [CHR 0x0A]),
          Row ''Skirts'' ''SK-100'' 0x41C7EB85 12,
          Row ''Jeans'' ''DUP'' 0x40A00000 1,
          Text (''---------------'' @ [CHR 0x0A])]
   \<and> length (items (foldl (\<lambda>s x. add x s) Inventory_new (replicate (Suc MAX_ITEMS) item)))
       = Suc MAX_ITEMS"
proof -
  have a: "items (add item self) = items self @ [item]" by (simp add: add_def)
  have b: "length (items (add item self)) = Suc (length (items self))" by (simp add: add_def)
  have c: "items (foldl (\<lambda>s x. add x s) self xs) = items self @ xs"
    by (rule items_foldl_add)
  have rows: "\<And>ys. list_items (foldl (\<lambda>s x. add x s) Inventory_new ys)
       = [Text (replicate 25 CHR '' '' @ ''Product'' @ replicate 54 CHR '' ''
                @ ''Model Code'' @ replicate 5 CHR '' '' @ ''Price (GBP)''
                @ replicate 4 CHR '' '' @ ''Qty.'' @ [CHR 0x0A])]
         @ map (\<lambda>x. Row (get_product_name (item_id x)) (name x) (price x) (nstock x)) ys
         @ [Text (''---------------'' @ [CHR 0x0A])]"
  proof -
    fix ys
    have "row_of = (\<lambda>x. Row (get_product_name (item_id x)) (name x) (price x) (nstock x))"
      by (rule ext) (simp add: row_of_def)
    then show "list_items (foldl (\<lambda>s x. add x s) Inventory_new ys)
       = [Text (replicate 25 CHR '' '' @ ''Product'' @ replicate 54 CHR '' ''
                @ ''Model Code'' @ replicate 5 CHR '' '' @ ''Price (GBP)''
                @ replicate 4 CHR '' '' @ ''Qty.'' @ [CHR 0x0A])]
         @ map (\<lambda>x. Row (get_product_name (item_id x)) (name x) (price x) (nstock x)) ys
         @ [Text (''---------------'' @ [CHR 0x0A])]"
      by (simp add: list_items_def items_foldl_add Inventory_new_def list_header_def
          separator_def nl_def)
  qed
  have n1: "get_product_name (item_id sk100) = ''Skirts''"
    by (simp add: sk100_def Skirts_def name_of_valid)
  have n2: "get_product_name (item_id dup_first) = ''Jeans''"
    by (simp add: dup_first_def Jeans_def name_of_valid)
  have f1: "name sk100 = ''SK-100''" "price sk100 = 0x41C7EB85" "nstock sk100 = 12"
    by (simp_all add: sk100_def)
  have f2: "name dup_first = ''DUP''" "price dup_first = 0x40A00000" "nstock dup_first = 1"
    by (simp_all add: dup_first_def)
  have d: "list_items (foldl (\<lambda>s x. add x s) Inventory_new [sk100, dup_first])
       = [Text (replicate 25 CHR '' '' @ ''Product'' @ replicate 54 CHR '' ''
                @ ''Model Code'' @ replicate 5 CHR '' '' @ ''Price (GBP)''
                @ replicate 4 CHR '' '' @ ''Qty.'' @ [CHR 0x0A]),
          Row ''Skirts'' ''SK-100'' 0x41C7EB85 12,
          Row ''Jeans'' ''DUP'' 0x40A00000 1,
          Text (''---------------'' @ [CHR 0x0A])]"
    unfolding rows by (simp only: list.map n1 n2 f1 f2 append.simps)
  have e: "length (items (foldl (\<lambda>s x. add x s) Inventory_new (replicate (Suc MAX_ITEMS) item)))
       = Suc MAX_ITEMS"
    by (simp only: items_foldl_add length_append length_replicate Inventory_new_def
          Inventory.simps list.size add_0)
  from a b c rows [of xs] d e show ?thesis by (intro conjI)
qed

text \<open>
  C3: at a position returned by a successful \<open>search\<close>, \<open>remove\<close> is defined, the
  inventory gets shorter by exactly one, the element at that position (and no other)
  leaves it, and the remaining elements keep their order: those before the position
  stay in place, those after it move down by one.
\<close>

theorem remove_found_item:
  assumes "search pred self = Some i"
  shows "\<exists>self'. remove i self = Some self'
    \<and> Suc (length (items self')) = length (items self)
    \<and> add_mset (items self ! i) (mset (items self')) = mset (items self)
    \<and> items self' = take i (items self) @ drop (Suc i) (items self)
    \<and> (\<forall>k<i. items self' ! k = items self ! k)
    \<and> (\<forall>k. i \<le> k \<and> k < length (items self') \<longrightarrow> items self' ! k = items self ! Suc k)"
proof -
  from assms have lt: "i < length (items self)" by (simp add: search_Some_iff)
  let ?s = "self\<lparr>items := erase i (items self)\<rparr>"
  have 1: "remove i self = Some ?s" using lt by (simp add: remove_def)
  have 2: "Suc (length (items ?s)) = length (items self)" using lt by (simp add: length_erase)
  have 3: "add_mset (items self ! i) (mset (items ?s)) = mset (items self)"
    using lt by (simp add: mset_erase)
  have 4: "items ?s = take i (items self) @ drop (Suc i) (items self)" by (simp add: erase_def)
  have 5: "\<forall>k<i. items ?s ! k = items self ! k" using lt by (simp add: nth_erase)
  have 6: "\<forall>k. i \<le> k \<and> k < length (items ?s) \<longrightarrow> items ?s ! k = items self ! Suc k"
  proof (intro allI impI)
    fix k assume k: "i \<le> k \<and> k < length (items ?s)"
    with 2 have "k < length (items self) - 1" by arith
    from nth_erase [OF lt this] k show "items ?s ! k = items self ! Suc k" by simp
  qed
  from 1 2 3 4 5 6 show ?thesis by blast
qed

theorem remove_found_item_witness:
  "search (\<lambda>item. name item = ''DUP'') stock3 = Some 1
   \<and> remove 1 stock3 = Some \<lparr>items = [sk100, dup_second]\<rparr>"
proof -
  have h: "search (\<lambda>item. name item = ''DUP'') stock3 = Some 1" by code_simp
  from remove_found_item [OF h] obtain self' where "remove 1 stock3 = Some self'"
    and "items self' = take 1 (items stock3) @ drop (Suc 1) (items stock3)" by blast
  then have "remove 1 stock3 = Some \<lparr>items = [sk100, dup_second]\<rparr>"
    by (simp add: stock3_def)
  with h show ?thesis by simp
qed

text \<open>
  C5: when two items carry the same model code, the earlier at position \<open>i\<close> and the
  later at \<open>j\<close>, with no other item of that code before \<open>j\<close>, the search by that
  code finds the earlier one; once it is removed, the same search finds the later one
  (now at position \<open>j - 1\<close>).
\<close>

theorem duplicate_model_code:
  assumes "i < j" and "j < length (items self)"
    and "name (items self ! i) = code" and "name (items self ! j) = code"
    and "\<forall>k<j. k \<noteq> i \<longrightarrow> name (items self ! k) \<noteq> code"
  shows "search (\<lambda>item. name item = code) self = Some i
    \<and> (\<exists>self'. remove i self = Some self'
          \<and> search (\<lambda>item. name item = code) self' = Some (j - 1)
          \<and> items self' ! (j - 1) = items self ! j)"
proof -
  let ?s = "self\<lparr>items := erase i (items self)\<rparr>"
  from assms have lt: "i < length (items self)" by simp
  have 1: "search (\<lambda>item. name item = code) self = Some i"
    unfolding search_Some_iff using assms by simp
  have 2: "remove i self = Some ?s" using lt by (simp add: remove_def)
  have len: "Suc (length (items ?s)) = length (items self)" using lt by (simp add: length_erase)
  have nth: "\<And>k. k < length (items self) - 1 \<Longrightarrow>
      items ?s ! k = (if k < i then items self ! k else items self ! Suc k)"
    using lt by (simp add: nth_erase)
  have j1: "j - 1 < length (items self) - 1" using assms by simp
  have 3: "items ?s ! (j - 1) = items self ! j" using nth [OF j1] assms(1) by simp
  have 4: "search (\<lambda>item. name item = code) ?s = Some (j - 1)"
    unfolding search_Some_iff
  proof (intro conjI allI impI)
    show "j - 1 < length (items ?s)" using len j1 by simp
    show "name (items ?s ! (j - 1)) = code" using 3 assms(4) by simp
    fix k assume k: "k < j - 1"
    then have kl: "k < length (items self) - 1" using j1 by simp
    show "name (items ?s ! k) \<noteq> code"
    proof (cases "k < i")
      case True
      then have "items ?s ! k = items self ! k" using nth [OF kl] by simp
      moreover have "name (items self ! k) \<noteq> code" using assms(5) True k by simp
      ultimately show ?thesis by simp
    next
      case False
      then have "items ?s ! k = items self ! Suc k" using nth [OF kl] by simp
      moreover have "name (items self ! Suc k) \<noteq> code" using assms(5) False k by simp
      ultimately show ?thesis by simp
    qed
  qed
  from 1 2 3 4 show ?thesis by blast
qed

theorem duplicate_model_code_witness:
  "search (\<lambda>item. name item = ''DUP'') stock3 = Some 1
    \<and> (\<exists>self'. remove 1 stock3 = Some self'
          \<and> search (\<lambda>item. name item = ''DUP'') self' = Some 1
          \<and> items self' ! 1 = dup_second)"
proof -
  have "(1::nat) < 2" "2 < length (items stock3)" "name (items stock3 ! 1) = ''DUP''"
    "name (items stock3 ! 2) = ''DUP''" "\<forall>k<2. k \<noteq> 1 \<longrightarrow> name (items stock3 ! k) \<noteq> ''DUP''"
    by (simp_all add: stock3_def sk100_def dup_first_def dup_second_def less_Suc_eq numeral_2_eq_2)
  from duplicate_model_code [OF this] show ?thesis by (simp add: stock3_def)
qed

section \<open>Properties of the interactive shell\<close>

lemma printf_simps [simp]:
  "inventory (printf t ui) = inventory ui" "cin (printf t ui) = cin ui"
  "uninit (printf t ui) = uninit ui" "cout (printf t ui) = cout ui @ [Text t]"
  by (simp_all add: printf_def)

lemma list_products_simps [simp]:
  "inventory (list_products ui) = inventory ui" "cin (list_products ui) = cin ui"
  "uninit (list_products ui) = uninit ui"
  by (simp_all add: list_products_def)

lemma list_options_simps [simp]:
  "inventory (list_options ui) = inventory ui" "cin (list_options ui) = cin ui"
  "uninit (list_options ui) = uninit ui"
  by (simp_all add: list_options_def)

lemma next_reading_frame:
  "next_reading ui = (r, ui') \<Longrightarrow>
     inventory ui' = inventory ui \<and> uninit ui' = uninit ui \<and> cout ui' = cout ui \<and> cin ui' = tl (cin ui)"
  by (auto simp: next_reading_def split: list.splits)

lemma read_char_frame:
  "read_char c ui = (v, ui') \<Longrightarrow>
     inventory ui' = inventory ui \<and> uninit ui' = uninit ui \<and> cout ui' = cout ui \<and> cin ui' = tl (cin ui)"
  by (auto simp: read_char_def split: prod.splits reading.splits dest: next_reading_frame)

lemma read_int_frame:
  "read_int c ui = (v, ui') \<Longrightarrow>
     inventory ui' = inventory ui \<and> uninit ui' = uninit ui \<and> cout ui' = cout ui \<and> cin ui' = tl (cin ui)"
  by (auto simp: read_int_def split: prod.splits reading.splits dest: next_reading_frame)

lemma read_line_frame:
  "read_line c ui = (v, ui') \<Longrightarrow>
     inventory ui' = inventory ui \<and> uninit ui' = uninit ui \<and> cout ui' = cout ui \<and> cin ui' = tl (cin ui)"
  by (auto simp: read_line_def split: prod.splits reading.splits dest: next_reading_frame)

lemma read_float_frame:
  "read_float c ui = (v, ui') \<Longrightarrow>
     inventory ui' = inventory ui \<and> uninit ui' = uninit ui \<and> cout ui' = cout ui \<and> cin ui' = tl (cin ui)"
  by (auto simp: read_float_def split: prod.splits reading.splits dest: next_reading_frame)

lemma extract_int_frame:
  "extract_int c ui = (v, ui') \<Longrightarrow>
     inventory ui' = inventory ui \<and> uninit ui' = uninit ui \<and> cout ui' = cout ui \<and> cin ui' = tl (cin ui)"
  by (auto simp: extract_int_def split: prod.splits reading.splits dest: next_reading_frame)

lemma get_user_action_frame:
  "get_user_action ui = (v, ui') \<Longrightarrow>
     inventory ui' = inventory ui \<and> uninit ui' = uninit ui \<and> cin ui' = tl (cin ui)
     \<and> cout ui' = cout ui @ [Text ''Select operation: '']"
  by (auto simp: get_user_action_def dest: read_char_frame)

lemma add_loop_result:
  "add_loop item ui = Some r \<Longrightarrow>
     is_valid_product (item_id (fst r)) \<and> inventory (snd r) = inventory ui
     \<and> uninit (snd r) = uninit ui"
proof (induction rule: add_loop.raw_induct [rotated 1, consumes 1])
  case (1 add_loop item ui r)
  obtain pid ui2 where r1: "read_int (item_id item) (printf ''Select product category to add: '' (list_products ui)) = (pid, ui2)"
    by (cases "read_int (item_id item) (printf ''Select product category to add: '' (list_products ui))")
  from read_int_frame [OF r1] have f2: "inventory ui2 = inventory ui" "uninit ui2 = uninit ui" by simp_all
  show ?case
  proof (cases "is_valid_product pid")
    case False
    with 1(2) r1 have "add_loop (item\<lparr>item_id := pid\<rparr>) (printf invalid_option ui2) = Some r"
      by simp
    from 1(1) [OF this] f2 show ?thesis by simp
  next
    case True
    obtain nm ui3 where r2: "read_line (name item) (printf ''Enter model code: '' ui2) = (nm, ui3)"
      by (cases "read_line (name item) (printf ''Enter model code: '' ui2)")
    obtain pr ui4 where r3: "read_float (price item) (printf ''Enter price: '' ui3) = (pr, ui4)"
      by (cases "read_float (price item) (printf ''Enter price: '' ui3)")
    obtain ns ui5 where r4: "extract_int (nstock item) (printf ''Enter quantity: '' ui4) = (ns, ui5)"
      by (cases "extract_int (nstock item) (printf ''Enter quantity: '' ui4)")
    from 1(2) r1 r2 r3 r4 True
    have r: "r = (item\<lparr>item_id := pid, name := nm, price := pr, nstock := ns\<rparr>, ui5)"
      by simp
    from read_line_frame [OF r2] read_float_frame [OF r3] extract_int_frame [OF r4] f2
    have "inventory ui5 = inventory ui" "uninit ui5 = uninit ui" by simp_all
    with r True show ?thesis by simp
  qed
qed

lemma handle_add_option_result:
  "handle_add_option ui = Some (y, ui') \<Longrightarrow>
     is_valid_product (item_id y) \<and> inventory ui' = inventory ui \<and> uninit ui' = uninit ui"
  unfolding handle_add_option_def by (drule add_loop_result) simp

lemma set_erase: "set (erase pos xs) \<subseteq> set xs"
proof -
  have "set (take pos xs) \<subseteq> set xs" by (rule set_take_subset)
  moreover have "set (drop (Suc pos) xs) \<subseteq> set xs" by (rule set_drop_subset)
  ultimately show ?thesis by (simp add: erase_def)
qed

lemma remove_valid:
  "remove pitem self = Some self' \<Longrightarrow> stock_valid self \<Longrightarrow> stock_valid self'"
  using set_erase [of pitem "items self"]
  by (auto simp: remove_def stock_valid_def split: if_splits)

lemma add_valid:
  "is_valid_product (item_id y) \<Longrightarrow> stock_valid self \<Longrightarrow> stock_valid (add y self)"
  by (simp add: add_def stock_valid_def)

lemma edit_item_valid:
  assumes "edit_item pitem ui = Some ui'" and "stock_valid (inventory ui)"
  shows "stock_valid (inventory ui')"
proof -
  from assms(1) obtain y ui1 self where
    a: "handle_add_option ui = Some (y, ui1)" and r: "remove pitem (inventory ui1) = Some self"
    and u: "ui' = ui1\<lparr>inventory := add y self\<rparr>"
    by (auto simp: edit_item_def split: bind_splits)
  from handle_add_option_result [OF a] have v: "is_valid_product (item_id y)"
    and i: "inventory ui1 = inventory ui" by simp_all
  from r i assms(2) have "stock_valid self" by (auto dest: remove_valid)
  with v u show ?thesis by (simp add: add_valid)
qed

lemma found_loop_valid:
  "found_loop pitem ui = Some ui' \<Longrightarrow> stock_valid (inventory ui) \<Longrightarrow>
     stock_valid (inventory ui')"
proof (induction rule: found_loop.raw_induct [rotated 1, consumes 1])
  case (1 found_loop pitem ui ui')
  obtain opt ui2 where g: "get_user_action (printf (''(q) Quit'' @ [nl])
        (printf (''(e) Edit Item'' @ [nl]) (printf (''(r) Remove Item'' @ [nl]) ui))) = (opt, ui2)"
    by (cases "get_user_action (printf (''(q) Quit'' @ [nl])
        (printf (''(e) Edit Item'' @ [nl]) (printf (''(r) Remove Item'' @ [nl]) ui)))")
  from get_user_action_frame [OF g] have i2: "inventory ui2 = inventory ui" by simp
  with "1.prems" have v2: "stock_valid (inventory ui2)" by simp
  consider (r) "opt = CHR ''r''" | (e) "opt = CHR ''e''" | (q) "opt = CHR ''q''"
    | (other) "opt \<noteq> CHR ''r''" "opt \<noteq> CHR ''e''" "opt \<noteq> CHR ''q''" by blast
  then show ?case
  proof cases
    case r
    with "1"(2) g obtain self where "remove pitem (inventory ui2) = Some self"
      and "ui' = ui2\<lparr>inventory := self\<rparr>"
      by (auto split: bind_splits)
    with v2 show ?thesis by (auto dest: remove_valid)
  next
    case e
    with "1"(2) g have "edit_item pitem ui2 = Some ui'" by simp
    from edit_item_valid [OF this v2] show ?thesis .
  next
    case q
    with "1"(2) g have "ui' = ui2" by simp
    with v2 show ?thesis by simp
  next
    case other
    with "1"(2) g have "found_loop pitem (printf invalid_option ui2) = Some ui'" by simp
    from "1"(1) [OF this] v2 show ?thesis by simp
  qed
qed

lemma found_item_menu_valid:
  "found_item_menu pitem ui = Some ui' \<Longrightarrow> stock_valid (inventory ui) \<Longrightarrow>
     stock_valid (inventory ui')"
  by (cases pitem) (auto simp: found_item_menu_def dest: found_loop_valid)

lemma handle_search_option_valid:
  assumes "handle_search_option ui = Some ui'" and "stock_valid (inventory ui)"
  shows "stock_valid (inventory ui')"
proof -
  obtain opt ui1 where c: "read_char (CHR 0x00)
      (printf ''Search by (n) Name, (p) Product Category: '' ui) = (opt, ui1)"
    by (cases "read_char (CHR 0x00) (printf ''Search by (n) Name, (p) Product Category: '' ui)")
  from read_char_frame [OF c] assms(2) have v1: "stock_valid (inventory ui1)" by simp
  consider (n) "opt = CHR ''n''" | (p) "opt \<noteq> CHR ''n''" "opt = CHR ''p''"
    | (other) "opt \<noteq> CHR ''n''" "opt \<noteq> CHR ''p''" by blast
  then show ?thesis
  proof cases
    case n
    obtain nm ui2 where l: "read_line [] (printf ''Enter model name: '' ui1) = (nm, ui2)"
      by (cases "read_line [] (printf ''Enter model name: '' ui1)")
    from read_line_frame [OF l] v1 have v2: "stock_valid (inventory ui2)" by simp
    from assms(1) c n l
    have "found_item_menu (search (\<lambda>item. name item = nm) (inventory ui2)) ui2 = Some ui'"
      by (simp add: handle_search_option_def)
    from found_item_menu_valid [OF this v2] show ?thesis .
  next
    case p
    obtain k ui2 where l: "read_int Invalid (printf ''Select product id: '' (list_products ui1))
        = (k, ui2)"
      by (cases "read_int Invalid (printf ''Select product id: '' (list_products ui1))")
    from read_int_frame [OF l] v1 have v2: "stock_valid (inventory ui2)" by simp
    from assms(1) c p l
    have "found_item_menu (search (\<lambda>item. item_id item = k) (inventory ui2)) ui2 = Some ui'"
      by (simp add: handle_search_option_def)
    from found_item_menu_valid [OF this v2] show ?thesis .
  next
    case other
    with assms(1) c have "ui' = printf invalid_option ui1" by (simp add: handle_search_option_def)
    with v1 show ?thesis by simp
  qed
qed

lemma run_body_valid:
  assumes "run_body ui = Some (brk, ui')" and "stock_valid (inventory ui)"
  shows "stock_valid (inventory ui')"
proof -
  obtain opt ui1 where g: "get_user_action (list_options ui) = (opt, ui1)"
    by (cases "get_user_action (list_options ui)")
  from get_user_action_frame [OF g] assms(2) have v1: "stock_valid (inventory ui1)" by simp
  consider (a) "opt = CHR ''a''" | (s) "opt = CHR ''s''" | (p) "opt = CHR ''p''"
    | (l) "opt = CHR ''l''" | (q) "opt = CHR ''q''"
    | (other) "opt \<notin> {CHR ''a'', CHR ''s'', CHR ''p'', CHR ''l'', CHR ''q''}" by blast
  then show ?thesis
  proof cases
    case a
    with assms(1) g obtain y ui2 where h: "handle_add_option ui1 = Some (y, ui2)"
      and u: "ui' = printf (''Added item'' @ [nl, nl]) (ui2\<lparr>inventory := add y (inventory ui2)\<rparr>)"
      by (auto simp: run_body_def split: bind_splits)
    from handle_add_option_result [OF h] v1 have "is_valid_product (item_id y)"
      and "stock_valid (inventory ui2)" by simp_all
    with u show ?thesis by (simp add: add_valid)
  next
    case s
    with assms(1) g have "handle_search_option ui1 = Some ui'"
      by (auto simp: run_body_def split: bind_splits)
    from handle_search_option_valid [OF this v1] show ?thesis .
  next
    case p
    with assms(1) g have "ui' = list_products ui1" by (simp add: run_body_def)
    with v1 show ?thesis by simp
  next
    case l
    with assms(1) g have "ui' = ui1\<lparr>cout := cout ui1 @ list_items (inventory ui1)\<rparr>"
      by (simp add: run_body_def)
    with v1 show ?thesis by simp
  next
    case q
    with assms(1) g have "ui' = ui1" by (simp add: run_body_def)
    with v1 show ?thesis by simp
  next
    case other
    with assms(1) g have "ui' = printf invalid_option ui1" by (simp add: run_body_def)
    with v1 show ?thesis by simp
  qed
qed

lemma rounds_valid:
  "rounds n ui = Some ui' \<Longrightarrow> stock_valid (inventory ui) \<Longrightarrow> stock_valid (inventory ui')"
proof (induction n arbitrary: ui)
  case 0
  then show ?case by simp
next
  case (Suc n)
  from Suc.prems(1) obtain ui1 where b: "run_body ui = Some (False, ui1)"
    and r: "rounds n ui1 = Some ui'"
    by (auto split: bind_splits if_splits)
  from run_body_valid [OF b Suc.prems(2)] have "stock_valid (inventory ui1)" .
  from Suc.IH [OF r this] show ?case .
qed

lemma run_loop_exit:
  "run_loop ui = Some ui' \<Longrightarrow>
     \<exists>n uin. rounds n ui = Some uin \<and> run_body uin = Some (True, ui')"
proof (induction rule: run_loop.raw_induct [rotated 1, consumes 1])
  case (1 run_loop ui ui')
  from "1"(2) obtain brk ui1 where b: "run_body ui = Some (brk, ui1)"
    and c: "(if brk then Some ui1 else run_loop ui1) = Some ui'"
    by (auto split: bind_splits)
  show ?case
  proof (cases brk)
    case True
    with b c have "rounds 0 ui = Some ui" "run_body ui = Some (True, ui')" by simp_all
    then show ?thesis by blast
  next
    case False
    with c have "run_loop ui1 = Some ui'" by simp
    from "1"(1) [OF this] obtain n uin where "rounds n ui1 = Some uin"
      and e: "run_body uin = Some (True, ui')" by blast
    with b False have "rounds (Suc n) ui = Some uin" by simp
    with e show ?thesis by blast
  qed
qed

lemma get_user_action_char:
  "cin ui = GotChar c # rest \<Longrightarrow>
     get_user_action ui = (c, ui\<lparr>cout := cout ui @ [Text ''Select operation: ''], cin := rest\<rparr>)"
  by (simp add: get_user_action_def read_char_def next_reading_def printf_def)






text \<open>
  C10: an item returned by \<open>handle_add_option\<close> has a valid category; the rounds of
  the main loop keep every stored item's category valid; so every inventory the shell
  reaches from its empty start, at any main menu and at its exit, holds only items
  whose category lies strictly between \<open>Invalid\<close> and \<open>Count\<close>.
\<close>

theorem stored_items_valid:
  "(handle_add_option ui = Some (item, ui') \<longrightarrow> is_valid_product (item_id item))
   \<and> (stock_valid (inventory ui) \<and> rounds n ui = Some later \<longrightarrow> stock_valid (inventory later))
   \<and> (rounds n (printf (''Shop Inventory v0.1'' @ [nl]) (InventoryUI_new inp jnk)) = Some menu
        \<longrightarrow> stock_valid (inventory menu))
   \<and> (main inp jnk = Some final \<longrightarrow> stock_valid (inventory final))"
proof (intro conjI impI)
  assume "handle_add_option ui = Some (item, ui')"
  from handle_add_option_result [OF this] show "is_valid_product (item_id item)" by simp
next
  assume "stock_valid (inventory ui) \<and> rounds n ui = Some later"
  then show "stock_valid (inventory later)" using rounds_valid by blast
next
  have v0: "stock_valid (inventory (printf (''Shop Inventory v0.1'' @ [nl]) (InventoryUI_new inp jnk)))"
    by (simp add: InventoryUI_new_def Inventory_new_def stock_valid_def)
  {
    assume "rounds n (printf (''Shop Inventory v0.1'' @ [nl]) (InventoryUI_new inp jnk)) = Some menu"
    from rounds_valid [OF this v0] show "stock_valid (inventory menu)" .
  next
    assume "main inp jnk = Some final"
    then have "run_loop (printf (''Shop Inventory v0.1'' @ [nl]) (InventoryUI_new inp jnk)) = Some final"
      by (simp add: main_def run_def)
    from run_loop_exit [OF this] obtain k uin
      where r: "rounds k (printf (''Shop Inventory v0.1'' @ [nl]) (InventoryUI_new inp jnk)) = Some uin"
        and b: "run_body uin = Some (True, final)" by blast
    from rounds_valid [OF r v0] have "stock_valid (inventory uin)" .
    from run_body_valid [OF b this] show "stock_valid (inventory final)" .
  }
qed

theorem stored_items_valid_witness:
  "handle_add_option (shell_on [] enter_sk200) \<noteq> None
   \<and> is_valid_product (item_id (fst (the (handle_add_option (shell_on [] enter_sk200)))))
   \<and> stock_valid (inventory (shell_on [sk100] session_add))
   \<and> rounds 2 (shell_on [sk100] session_add) \<noteq> None
   \<and> stock_valid (inventory (the (rounds 2 (shell_on [sk100] session_add))))
   \<and> rounds 3 (printf (''Shop Inventory v0.1'' @ [nl]) (InventoryUI_new session_add junk)) = None
   \<and> rounds 2 (printf (''Shop Inventory v0.1'' @ [nl]) (InventoryUI_new session_add junk)) \<noteq> None
   \<and> stock_valid (inventory (the (rounds 2 (printf (''Shop Inventory v0.1'' @ [nl])
        (InventoryUI_new session_add junk)))))
   \<and> main session_add junk \<noteq> None
   \<and> stock_valid (inventory (the (main session_add junk)))"
proof -
  let ?a = "shell_on [] enter_sk200"
  let ?b = "shell_on [sk100] session_add"
  let ?c = "printf (''Shop Inventory v0.1'' @ [nl]) (InventoryUI_new session_add junk)"
  have 1: "handle_add_option ?a \<noteq> None" by code_simp
  then have h: "handle_add_option ?a
      = Some (fst (the (handle_add_option ?a)), snd (the (handle_add_option ?a)))" by fastforce
  have 2: "stock_valid (inventory ?b)" by code_simp
  have 3: "rounds 2 ?b \<noteq> None" by code_simp
  then have r: "rounds 2 ?b = Some (the (rounds 2 ?b))" by fastforce
  have 4: "rounds 3 ?c = None" by code_simp
  have 5: "rounds 2 ?c \<noteq> None" by code_simp
  then have q: "rounds 2 ?c = Some (the (rounds 2 ?c))" by fastforce
  have 6: "main session_add junk \<noteq> None" by code_simp
  then have m: "main session_add junk = Some (the (main session_add junk))" by fastforce
  from h stored_items_valid [where ui = ?a and item = "fst (the (handle_add_option ?a))"
      and ui' = "snd (the (handle_add_option ?a))"]
  have 7: "is_valid_product (item_id (fst (the (handle_add_option ?a))))" by blast
  from 2 r stored_items_valid [where ui = ?b and n = 2 and later = "the (rounds 2 ?b)"]
  have 8: "stock_valid (inventory (the (rounds 2 ?b)))" by blast
  from q stored_items_valid [where n = 2 and inp = session_add and jnk = junk and menu = "the (rounds 2 ?c)"]
  have 9: "stock_valid (inventory (the (rounds 2 ?c)))" by blast
  from m stored_items_valid [where inp = session_add and jnk = junk and final = "the (main session_add junk)"]
  have 10: "stock_valid (inventory (the (main session_add junk)))" by blast
  from 1 7 2 3 8 4 5 9 6 10 show ?thesis by (intro conjI)
qed

lemma found_loop_quit:
  assumes "cin ui = GotChar CHR ''q'' # rest"
  shows "\<exists>ui'. found_loop pitem ui = Some ui' \<and> inventory ui' = inventory ui \<and> cin ui' = rest"
proof -
  let ?m = "printf (''(q) Quit'' @ [nl])
        (printf (''(e) Edit Item'' @ [nl]) (printf (''(r) Remove Item'' @ [nl]) ui))"
  from assms have "cin ?m = GotChar CHR ''q'' # rest" by simp
  from get_user_action_char [OF this]
  have "found_loop pitem ui = Some (?m\<lparr>cout := cout ?m @ [Text ''Select operation: ''], cin := rest\<rparr>)"
    by (subst found_loop.simps) simp
  then show ?thesis by simp
qed

text \<open>
  The remove branch of the menu is reached only with a position that \<open>search\<close> returned
  on the inventory as it still is, where \<open>remove\<close> is defined; so is the edit branch
  (see the theorem on \<open>edit_item\<close> below).
\<close>

lemma found_loop_remove:
  assumes "search pred (inventory ui) = Some pitem" and "cin ui = GotChar CHR ''r'' # rest"
  shows "\<exists>ui'. found_loop pitem ui = Some ui'
     \<and> items (inventory ui') = erase pitem (items (inventory ui)) \<and> cin ui' = rest"
proof -
  let ?m = "printf (''(q) Quit'' @ [nl])
        (printf (''(e) Edit Item'' @ [nl]) (printf (''(r) Remove Item'' @ [nl]) ui))"
  let ?u = "?m\<lparr>cout := cout ?m @ [Text ''Select operation: ''], cin := rest\<rparr>"
  from assms(1) have lt: "pitem < length (items (inventory ui))" by (simp add: search_Some_iff)
  from assms(2) have "cin ?m = GotChar CHR ''r'' # rest" by simp
  from get_user_action_char [OF this] lt
  have "found_loop pitem ui
      = Some (?u\<lparr>inventory := inventory ui\<lparr>items := erase pitem (items (inventory ui))\<rparr>\<rparr>)"
    by (subst found_loop.simps) (simp add: remove_def)
  then show ?thesis by simp
qed

lemma handle_search_by_name:
  assumes "cin ui = GotChar CHR ''n'' # GotLine nm # rest"
  shows "\<exists>ui2. handle_search_option ui
       = found_item_menu (search (\<lambda>item. name item = nm) (inventory ui)) ui2
     \<and> inventory ui2 = inventory ui \<and> cin ui2 = rest"
  using assms
  apply (simp add: handle_search_option_def read_char_def read_line_def next_reading_def
      printf_def)
  apply (intro exI conjI, rule refl)
   apply simp_all
  done

lemma handle_search_by_category:
  assumes "cin ui = GotChar CHR ''p'' # GotInt k # rest"
  shows "\<exists>ui2. handle_search_option ui
       = found_item_menu (search (\<lambda>item. item_id item = k) (inventory ui)) ui2
     \<and> inventory ui2 = inventory ui \<and> cin ui2 = rest"
  using assms
  apply (simp add: handle_search_option_def read_char_def read_int_def next_reading_def
      printf_def list_products_def)
  apply (intro exI conjI, rule refl)
   apply simp_all
  done

lemma run_body_search:
  assumes "cin ui = GotChar CHR ''s'' # rest"
  shows "\<exists>ui1. run_body ui = handle_search_option ui1 \<bind> (\<lambda>ui2. Some (False, ui2))
     \<and> inventory ui1 = inventory ui \<and> cin ui1 = rest"
proof -
  from assms have "cin (list_options ui) = GotChar CHR ''s'' # rest" by simp
  from get_user_action_char [OF this] show ?thesis
    apply (simp add: run_body_def)
    apply (intro exI conjI, rule refl)
     apply simp_all
    done
qed

text \<open>
  C9: in the menu of a found item, the command \<open>q\<close> ends the menu with the inventory
  unchanged, whatever the inventory and the found position are; a main-loop round that
  searches (by name or by category), finds an item and then reads \<open>q\<close> completes
  without leaving the main loop and with the inventory unchanged.
\<close>

theorem quit_submenu_keeps_inventory:
  "(cin ui = GotChar CHR ''q'' # rest \<longrightarrow>
      (\<exists>ui'. found_item_menu (Some pitem) ui = Some ui'
         \<and> inventory ui' = inventory ui \<and> cin ui' = rest))
   \<and> (cin ui = GotChar CHR ''s'' # GotChar CHR ''n'' # GotLine nm # GotChar CHR ''q'' # rest
        \<and> search (\<lambda>item. name item = nm) (inventory ui) = Some pitem \<longrightarrow>
      (\<exists>ui'. run_body ui = Some (False, ui')
         \<and> inventory ui' = inventory ui \<and> cin ui' = rest))
   \<and> (cin ui = GotChar CHR ''s'' # GotChar CHR ''p'' # GotInt k # GotChar CHR ''q'' # rest
        \<and> search (\<lambda>item. item_id item = k) (inventory ui) = Some pitem \<longrightarrow>
      (\<exists>ui'. run_body ui = Some (False, ui')
         \<and> inventory ui' = inventory ui \<and> cin ui' = rest))"
proof (intro conjI impI)
  assume "cin ui = GotChar CHR ''q'' # rest"
  from found_loop_quit [OF this, of pitem]
  show "\<exists>ui'. found_item_menu (Some pitem) ui = Some ui'
         \<and> inventory ui' = inventory ui \<and> cin ui' = rest"
    by (simp add: found_item_menu_def)
next
  assume a: "cin ui = GotChar CHR ''s'' # GotChar CHR ''n'' # GotLine nm # GotChar CHR ''q'' # rest
        \<and> search (\<lambda>item. name item = nm) (inventory ui) = Some pitem"
  then obtain ui1 where b: "run_body ui = handle_search_option ui1 \<bind> (\<lambda>ui2. Some (False, ui2))"
    and i1: "inventory ui1 = inventory ui"
    and c1: "cin ui1 = GotChar CHR ''n'' # GotLine nm # GotChar CHR ''q'' # rest"
    using run_body_search by blast
  from handle_search_by_name [OF c1] obtain ui2 where
    h: "handle_search_option ui1
       = found_item_menu (search (\<lambda>item. name item = nm) (inventory ui1)) ui2"
    and i2: "inventory ui2 = inventory ui1" and c2: "cin ui2 = GotChar CHR ''q'' # rest" by blast
  from found_loop_quit [OF c2, of pitem] obtain ui' where
    f: "found_loop pitem ui2 = Some ui'" and i3: "inventory ui' = inventory ui2"
    and c3: "cin ui' = rest" by blast
  from a h f i1 have "handle_search_option ui1 = Some ui'" by (simp add: found_item_menu_def)
  with b have "run_body ui = Some (False, ui')" by simp
  with i1 i2 i3 c3 show "\<exists>ui'. run_body ui = Some (False, ui')
         \<and> inventory ui' = inventory ui \<and> cin ui' = rest" by simp
next
  assume a: "cin ui = GotChar CHR ''s'' # GotChar CHR ''p'' # GotInt k # GotChar CHR ''q'' # rest
        \<and> search (\<lambda>item. item_id item = k) (inventory ui) = Some pitem"
  then obtain ui1 where b: "run_body ui = handle_search_option ui1 \<bind> (\<lambda>ui2. Some (False, ui2))"
    and i1: "inventory ui1 = inventory ui"
    and c1: "cin ui1 = GotChar CHR ''p'' # GotInt k # GotChar CHR ''q'' # rest"
    using run_body_search by blast
  from handle_search_by_category [OF c1] obtain ui2 where
    h: "handle_search_option ui1
       = found_item_menu (search (\<lambda>item. item_id item = k) (inventory ui1)) ui2"
    and i2: "inventory ui2 = inventory ui1" and c2: "cin ui2 = GotChar CHR ''q'' # rest" by blast
  from found_loop_quit [OF c2, of pitem] obtain ui' where
    f: "found_loop pitem ui2 = Some ui'" and i3: "inventory ui' = inventory ui2"
    and c3: "cin ui' = rest" by blast
  from a h f i1 have "handle_search_option ui1 = Some ui'" by (simp add: found_item_menu_def)
  with b have "run_body ui = Some (False, ui')" by simp
  with i1 i2 i3 c3 show "\<exists>ui'. run_body ui = Some (False, ui')
         \<and> inventory ui' = inventory ui \<and> cin ui' = rest" by simp
qed

theorem quit_submenu_keeps_inventory_witness:
  "(\<exists>ui'. found_item_menu (Some 1) (shell_on [sk100, dup_first, dup_second] [GotChar CHR ''q''])
        = Some ui' \<and> inventory ui' = \<lparr>items = [sk100, dup_first, dup_second]\<rparr> \<and> cin ui' = [])
   \<and> (\<exists>ui'. run_body (shell_on [sk100, dup_first, dup_second]
          [GotChar CHR ''s'', GotChar CHR ''n'', GotLine ''DUP'', GotChar CHR ''q''])
        = Some (False, ui') \<and> inventory ui' = \<lparr>items = [sk100, dup_first, dup_second]\<rparr>
        \<and> cin ui' = [])
   \<and> (\<exists>ui'. run_body (shell_on [sk100, dup_first, dup_second]
          [GotChar CHR ''s'', GotChar CHR ''p'', GotInt 5, GotChar CHR ''q''])
        = Some (False, ui') \<and> inventory ui' = \<lparr>items = [sk100, dup_first, dup_second]\<rparr>
        \<and> cin ui' = [])"
proof -
  let ?xs = "[sk100, dup_first, dup_second]"
  let ?a = "shell_on ?xs [GotChar CHR ''q'']"
  let ?b = "shell_on ?xs [GotChar CHR ''s'', GotChar CHR ''n'', GotLine ''DUP'', GotChar CHR ''q'']"
  let ?c = "shell_on ?xs [GotChar CHR ''s'', GotChar CHR ''p'', GotInt 5, GotChar CHR ''q'']"
  have a: "cin ?a = GotChar CHR ''q'' # []" by (simp add: shell_on_def)
  have b: "cin ?b = GotChar CHR ''s'' # GotChar CHR ''n'' # GotLine ''DUP'' # GotChar CHR ''q'' # []
      \<and> search (\<lambda>item. name item = ''DUP'') (inventory ?b) = Some 1"
    by (simp add: shell_on_def search_def sk100_def dup_first_def dup_second_def)
  have c: "cin ?c = GotChar CHR ''s'' # GotChar CHR ''p'' # GotInt 5 # GotChar CHR ''q'' # []
      \<and> search (\<lambda>item. item_id item = 5) (inventory ?c) = Some 2"
    by (simp add: shell_on_def search_def sk100_def dup_first_def dup_second_def Product_defs)
  have i: "inventory ?a = \<lparr>items = ?xs\<rparr>" "inventory ?b = \<lparr>items = ?xs\<rparr>"
    "inventory ?c = \<lparr>items = ?xs\<rparr>" by (simp_all add: shell_on_def)
  from a quit_submenu_keeps_inventory [where ui = ?a and rest = "[]" and pitem = 1] have 1: "\<exists>ui'. found_item_menu (Some 1) ?a = Some ui'
      \<and> inventory ui' = inventory ?a \<and> cin ui' = []" by blast
  from b quit_submenu_keeps_inventory [where ui = ?b and rest = "[]" and pitem = 1 and nm = "''DUP''"] have 2: "\<exists>ui'. run_body ?b = Some (False, ui')
      \<and> inventory ui' = inventory ?b \<and> cin ui' = []" by blast
  from c quit_submenu_keeps_inventory [where ui = ?c and rest = "[]" and pitem = 2 and k = 5] have 3: "\<exists>ui'. run_body ?c = Some (False, ui')
      \<and> inventory ui' = inventory ?c \<and> cin ui' = []" by blast
  from 1 2 3 show ?thesis unfolding i by simp
qed

text \<open>
  C4, as amended: when \<open>search\<close> found an item at position \<open>i\<close> and the add flow
  returns the replacement \<open>y\<close>, the edit leaves the former sequence with the element
  at \<open>i\<close> erased and \<open>y\<close> appended. \<open>y\<close> is the last element, at the index one
  below the unchanged size (the original position of the found item exactly when that
  item was the last one); the other elements keep their order (position \<open>i\<close> now holds
  the former successor of the found item, when it had one); one occurrence of the
  found item is gone; and the found item no longer appears provided \<open>y\<close> differs from
  it and no other stored item equals it.
\<close>

theorem edit_appends_replacement:
  assumes "items (inventory ui) = xs"
    and "search pred (inventory ui) = Some i"
    and "handle_add_option ui = Some (y, ui1)"
  shows "\<exists>ui'. edit_item i ui = Some ui'
     \<and> items (inventory ui') = take i xs @ drop (Suc i) xs @ [y]
     \<and> last (items (inventory ui')) = y
     \<and> items (inventory ui') ! (length xs - 1) = y
     \<and> length (items (inventory ui')) = length xs
     \<and> (\<forall>k<i. items (inventory ui') ! k = xs ! k)
     \<and> (\<forall>k. i \<le> k \<and> Suc k < length xs \<longrightarrow> items (inventory ui') ! k = xs ! Suc k)
     \<and> mset (items (inventory ui')) = add_mset y (mset xs - {#xs ! i#})
     \<and> (y \<noteq> xs ! i \<and> (\<forall>k<length xs. k \<noteq> i \<longrightarrow> xs ! k \<noteq> xs ! i)
          \<longrightarrow> xs ! i \<notin> set (items (inventory ui')))"
proof -
  from assms(1,2) have lt: "i < length xs" by (auto simp: search_Some_iff)
  from handle_add_option_result [OF assms(3)] have i1: "inventory ui1 = inventory ui" by simp
  let ?ys = "erase i xs @ [y]"
  let ?u = "ui1\<lparr>inventory := add y (inventory ui1\<lparr>items := erase i xs\<rparr>)\<rparr>"
  have e: "edit_item i ui = Some ?u"
    using assms(1,3) lt i1 by (simp add: edit_item_def remove_def)
  have 1: "items (inventory ?u) = ?ys" by (simp add: add_def)
  have 2: "items (inventory ?u) = take i xs @ drop (Suc i) xs @ [y]"
    by (simp add: add_def erase_def)
  have 3: "last (items (inventory ?u)) = y" unfolding 1 by simp
  have 9: "items (inventory ?u) ! (length xs - 1) = y"
  proof -
    from length_erase [OF lt] have "length (erase i xs) = length xs - 1" by arith
    then show ?thesis unfolding 1 by (simp add: nth_append)
  qed
  have 4: "length (items (inventory ?u)) = length xs"
    unfolding 1 using length_erase [OF lt] by simp
  have 5: "\<forall>k<i. items (inventory ?u) ! k = xs ! k"
    unfolding 1
  proof (intro allI impI)
    fix k assume k: "k < i"
    with lt have kl: "k < length xs - 1" by arith
    with length_erase [OF lt] have "k < length (erase i xs)" by arith
    then have "?ys ! k = erase i xs ! k" by (simp add: nth_append)
    with nth_erase [OF lt kl] k show "?ys ! k = xs ! k" by simp
  qed
  have 6: "\<forall>k. i \<le> k \<and> Suc k < length xs \<longrightarrow> items (inventory ?u) ! k = xs ! Suc k"
    unfolding 1
  proof (intro allI impI)
    fix k assume k: "i \<le> k \<and> Suc k < length xs"
    then have kl: "k < length xs - 1" by arith
    with length_erase [OF lt] have "k < length (erase i xs)" by arith
    then have "?ys ! k = erase i xs ! k" by (simp add: nth_append)
    with nth_erase [OF lt kl] k show "?ys ! k = xs ! Suc k" by simp
  qed
  from mset_erase [OF lt] have m: "mset (erase i xs) = mset xs - {#xs ! i#}"
    by (metis add_mset_remove_trivial)
  have 7: "mset (items (inventory ?u)) = add_mset y (mset xs - {#xs ! i#})"
    unfolding 1 using m by simp
  have 8: "y \<noteq> xs ! i \<and> (\<forall>k<length xs. k \<noteq> i \<longrightarrow> xs ! k \<noteq> xs ! i)
      \<longrightarrow> xs ! i \<notin> set (items (inventory ?u))"
    unfolding 1
  proof (intro impI notI)
    assume a: "y \<noteq> xs ! i \<and> (\<forall>k<length xs. k \<noteq> i \<longrightarrow> xs ! k \<noteq> xs ! i)"
    assume "xs ! i \<in> set ?ys"
    with a have "xs ! i \<in> set (erase i xs)" by auto
    then obtain k where kl: "k < length (erase i xs)" and kx: "erase i xs ! k = xs ! i"
      by (auto simp: in_set_conv_nth)
    from kl length_erase [OF lt] have k1: "k < length xs - 1" by arith
    show False
    proof (cases "k < i")
      case True
      with nth_erase [OF lt k1] kx have "xs ! k = xs ! i" by simp
      with a True lt show False by auto
    next
      case False
      with nth_erase [OF lt k1] kx have "xs ! Suc k = xs ! i" by simp
      moreover from k1 False have "Suc k < length xs" "Suc k \<noteq> i" by arith+
      ultimately show False using a by auto
    qed
  qed
  from e 2 3 9 4 5 6 7 8 have "edit_item i ui = Some ?u
     \<and> items (inventory ?u) = take i xs @ drop (Suc i) xs @ [y]
     \<and> last (items (inventory ?u)) = y
     \<and> items (inventory ?u) ! (length xs - 1) = y
     \<and> length (items (inventory ?u)) = length xs
     \<and> (\<forall>k<i. items (inventory ?u) ! k = xs ! k)
     \<and> (\<forall>k. i \<le> k \<and> Suc k < length xs \<longrightarrow> items (inventory ?u) ! k = xs ! Suc k)
     \<and> mset (items (inventory ?u)) = add_mset y (mset xs - {#xs ! i#})
     \<and> (y \<noteq> xs ! i \<and> (\<forall>k<length xs. k \<noteq> i \<longrightarrow> xs ! k \<noteq> xs ! i)
          \<longrightarrow> xs ! i \<notin> set (items (inventory ?u)))"
    by (intro conjI)
  then show ?thesis by (rule exI [of _ ?u])
qed

theorem edit_appends_replacement_witness:
  "search is_dup (inventory (shell_on [sk100, dup_first, dup_second] enter_sk200)) = Some 1
   \<and> handle_add_option (shell_on [sk100, dup_first, dup_second] enter_sk200) \<noteq> None
   \<and> (\<exists>ui'. edit_item 1 (shell_on [sk100, dup_first, dup_second] enter_sk200) = Some ui'
         \<and> items (inventory ui') = [sk100, dup_second, sk200])"
proof -
  let ?ui = "shell_on [sk100, dup_first, dup_second] enter_sk200"
  have x: "items (inventory ?ui) = [sk100, dup_first, dup_second]" by (simp add: shell_on_def)
  have s: "search is_dup (inventory ?ui) = Some 1" by code_simp
  have n: "handle_add_option ?ui \<noteq> None" by code_simp
  then obtain y ui1 where h: "handle_add_option ?ui = Some (y, ui1)" by fastforce
  have "map_option fst (handle_add_option ?ui) = Some sk200" by code_simp
  with h have y: "y = sk200" by simp
  from edit_appends_replacement [OF x s h] obtain ui' where "edit_item 1 ?ui = Some ui'"
    and "items (inventory ui') = take 1 [sk100, dup_first, dup_second]
           @ drop (Suc 1) [sk100, dup_first, dup_second] @ [y]" by blast
  with y have "\<exists>ui'. edit_item 1 ?ui = Some ui'
         \<and> items (inventory ui') = [sk100, dup_second, sk200]" by simp
  with s n show ?thesis by (intro conjI)
qed

text \<open>
  C4, as stated, fails: editing the only item of an inventory puts the replacement at
  position \<open>0\<close>, the original position of the found item; and when the inventory holds
  the found item twice, it still appears after the edit.
\<close>

theorem edit_position_counterexample:
  "search is_sk100 (inventory (shell_on [sk100] enter_dup)) = Some 0
   \<and> map_option inventory (edit_item 0 (shell_on [sk100] enter_dup))
       = Some \<lparr>items = [dup_first]\<rparr>
   \<and> search is_sk100 (inventory (shell_on [sk100, sk100] enter_dup)) = Some 0
   \<and> map_option inventory (edit_item 0 (shell_on [sk100, sk100] enter_dup))
       = Some \<lparr>items = [sk100, dup_first]\<rparr>"
  by code_simp

end
